theory Spec2Isabelle
  imports Main "HOL-Library.AList" "HOL-Library.Sublist"
begin

section \<open>Values and the Python operations the program applies to them\<close>

text \<open>
  The program of \<^verbatim>\<open>auto_update_gemini.py\<close> handles events as the dictionaries that
  \<^verbatim>\<open>json.load\<close> and \<^verbatim>\<open>json.loads\<close> return. A JSON value is modelled as it is in
  Python: a dictionary is an association list (the first binding of a key is the one
  looked up; assignment keeps the position of a key that is present and appends a new
  one, as Python's insertion order does). Numbers are integers here: the program computes
  with no number but the \<^verbatim>\<open>id\<close>. A string is the list of its characters, a
  character being a code point below 256 (ASCII and Latin-1); text with other code points
  is not represented.
\<close>

datatype json =
    JNull
  | JBool bool
  | JInt int
  | JStr string
  | JArr "json list"
  | JObj "(string \<times> json) list"

datatype py_error = KeyError | TypeError | AttributeError | OSError

text \<open>Sequencing of two steps of which the first can raise.\<close>

definition py_bind :: "py_error + 'a \<Rightarrow> ('a \<Rightarrow> py_error + 'b) \<Rightarrow> py_error + 'b" where
  "py_bind m f = (case m of Inl e \<Rightarrow> Inl e | Inr x \<Rightarrow> f x)"

text \<open>\<^verbatim>\<open>obj[key]\<close> with a string key: only a dictionary can be subscripted so.\<close>

definition subscript :: "json \<Rightarrow> string \<Rightarrow> py_error + json" where
  "subscript obj k =
     (case obj of
        JObj kvs \<Rightarrow> (case map_of kvs k of None \<Rightarrow> Inl KeyError | Some v \<Rightarrow> Inr v)
      | _ \<Rightarrow> Inl TypeError)"

text \<open>\<^verbatim>\<open>obj[key] = v\<close> with a string key.\<close>

definition set_item :: "json \<Rightarrow> string \<Rightarrow> json \<Rightarrow> py_error + json" where
  "set_item obj k v =
     (case obj of
        JObj kvs \<Rightarrow> Inr (JObj (AList.update k v kvs))
      | _ \<Rightarrow> Inl TypeError)"

text \<open>\<^verbatim>\<open>obj.get(key)\<close>: only a dictionary has the method.\<close>

definition dict_get :: "json \<Rightarrow> string \<Rightarrow> py_error + json" where
  "dict_get obj k =
     (case obj of
        JObj kvs \<Rightarrow> Inr (case map_of kvs k of None \<Rightarrow> JNull | Some v \<Rightarrow> v)
      | _ \<Rightarrow> Inl AttributeError)"

text \<open>The truth value Python gives a JSON value in a condition.\<close>

definition truthy :: "json \<Rightarrow> bool" where
  "truthy v =
     (case v of
        JNull \<Rightarrow> False
      | JBool b \<Rightarrow> b
      | JInt n \<Rightarrow> n \<noteq> 0
      | JStr s \<Rightarrow> s \<noteq> []
      | JArr xs \<Rightarrow> xs \<noteq> []
      | JObj kvs \<Rightarrow> kvs \<noteq> [])"

text \<open>
  \<^verbatim>\<open>str.lower\<close> on one character: the capital letters below 256 are A to Z (65 to 90)
  and the accented capitals 192 to 222 without the multiplication sign 215; the small
  letter of each is 32 further on. Every other character is left as it is.
\<close>

definition lower_char :: "char \<Rightarrow> char" where
  "lower_char c =
     (let n = (of_char c :: nat)
      in if (65 \<le> n \<and> n \<le> 90) \<or> (192 \<le> n \<and> n \<le> 222 \<and> n \<noteq> 215)
         then char_of (n + 32)
         else c)"

definition lower :: "string \<Rightarrow> string" where
  "lower s = map lower_char s"

text \<open>\<^verbatim>\<open>v.lower()\<close>: only a string has the method.\<close>

definition py_lower :: "json \<Rightarrow> py_error + string" where
  "py_lower v = (case v of JStr s \<Rightarrow> Inr (lower s) | _ \<Rightarrow> Inl AttributeError)"

text \<open>\<^verbatim>\<open>word in text\<close> on strings: \<open>word\<close> occurs in \<open>text\<close> as a contiguous piece.\<close>

fun contains :: "string \<Rightarrow> string \<Rightarrow> bool" where
  "contains word [] = (word = [])"
| "contains word (c # cs) = (prefix word (c # cs) \<or> contains word cs)"

section \<open>Candidate Discovery: \<^verbatim>\<open>search_google_events\<close>\<close>

text \<open>
  The result page is what \<^verbatim>\<open>soup.find_all('div', class_='g')\<close> yields: for each block
  the text of its \<^verbatim>\<open>h3\<close> if it has one, the text of its snippet block if it has one,
  and its first \<^verbatim>\<open>a\<close> element if it has one, with the \<^verbatim>\<open>href\<close> attribute that element
  may lack. \<open>Malformed\<close> is a block on which the body of the inner \<^verbatim>\<open>try\<close> raises.
  \<open>SearchFailed\<close> is a request or a parse that raises.
\<close>

datatype raw_hit =
    Hit (title_elem: "string option") (snippet_elem: "string option")
        (link_elem: "string option option")
  | Malformed

datatype page_outcome = SearchFailed | Page "raw_hit list"

record candidate =
  title :: string
  link :: string
  snippet :: string
  query :: string

definition event_domains :: "string list" where
  "event_domains =
     [''marinabay'', ''sentosa'', ''esplanade'', ''gardens'',
      ''sistic'', ''ticketmaster'', ''timeout'', ''marinabaysands'',
      ''mandai'', ''rwsentosa'', ''nhb.gov.sg'', ''nationalgallery'',
      ''thehoneycombers'', ''livenation'', ''eventbrite'', ''peatix'']"

text \<open>The body of the loop over the blocks, lines 53 to 77: the results after one block.\<close>

definition search_step :: "string \<Rightarrow> raw_hit \<Rightarrow> candidate list \<Rightarrow> candidate list" where
  "search_step q h results =
     (case h of
        Malformed \<Rightarrow> results
      | Hit title_e snippet_e link_e \<Rightarrow>
          (case (title_e, link_e) of
             (Some t, Some a) \<Rightarrow>
               (let lnk = (case a of None \<Rightarrow> [] | Some href \<Rightarrow> href);
                    snip = (case snippet_e of None \<Rightarrow> [] | Some s \<Rightarrow> s)
                in if list_ex (\<lambda>domain. contains domain (lower lnk)) event_domains
                   then results @ [\<lparr>title = t, link = lnk, snippet = snip, query = q\<rparr>]
                   else results)
           | _ \<Rightarrow> results))"

fun search_loop :: "string \<Rightarrow> raw_hit list \<Rightarrow> candidate list \<Rightarrow> candidate list" where
  "search_loop q [] results = results"
| "search_loop q (h # hs) results = search_loop q hs (search_step q h results)"

definition search_google_events :: "(string \<Rightarrow> page_outcome) \<Rightarrow> string \<Rightarrow> candidate list" where
  "search_google_events fetch q =
     (case fetch q of
        SearchFailed \<Rightarrow> []
      | Page hits \<Rightarrow> take 5 (search_loop q hits []))"

section \<open>Link Validator: \<^verbatim>\<open>verify_link\<close>\<close>

text \<open>
  A request either raises (a timeout, a refused connection) or yields a response with a
  status code. The function is modelled with the list of the requests it made, in order.
\<close>

datatype http_method = HEAD | GET

datatype http_outcome = Raised | Status int

definition verify_link :: "(http_method \<Rightarrow> string \<Rightarrow> http_outcome) \<Rightarrow> string \<Rightarrow> bool \<times> http_method list" where
  "verify_link request url =
     (case request HEAD url of
        Status code \<Rightarrow> (code = 200, [HEAD])
      | Raised \<Rightarrow>
          (case request GET url of
             Status code \<Rightarrow> (code = 200, [HEAD, GET])
           | Raised \<Rightarrow> (False, [HEAD, GET])))"

section \<open>Semantic Verifier: \<^verbatim>\<open>verify_event_with_gemini\<close>\<close>

text \<open>
  The exchange with the external service, lines 148 to 177, is recorded by the place where
  control leaves it: the request raises; the status is not 200; the body has no candidate;
  \<^verbatim>\<open>json.loads\<close> raises on the reply text; something else raises (\<^verbatim>\<open>response.json()\<close>, the
  path to the text); or \<^verbatim>\<open>json.loads\<close> returns the value \<open>result\<close>.
\<close>

datatype gemini_outcome =
    RequestRaised
  | StatusNot200 int
  | NoCandidates
  | JSONDecodeError
  | OtherRaised
  | Parsed json

text \<open>Lines 179 to 184, inside the \<^verbatim>\<open>try\<close>: what they return, or the exception they raise.\<close>

definition verify_result :: "json \<Rightarrow> py_error + json option" where
  "verify_result result =
     py_bind (dict_get result ''is_valid'') (\<lambda>is_valid.
       if truthy is_valid
       then py_bind (subscript result ''event'') (\<lambda>ev.
            py_bind (subscript ev ''title'') (\<lambda>_.
            py_bind (subscript result ''event'') (\<lambda>ev'. Inr (Some ev'))))
       else Inr None)"

text \<open>Every exception inside the \<^verbatim>\<open>try\<close> is caught and turned into \<^verbatim>\<open>None\<close>.\<close>

definition verify_event_with_gemini :: "gemini_outcome \<Rightarrow> json option" where
  "verify_event_with_gemini outcome =
     (case outcome of
        Parsed result \<Rightarrow> (case verify_result result of Inl _ \<Rightarrow> None | Inr r \<Rightarrow> r)
      | _ \<Rightarrow> None)"

section \<open>Catalog Store: \<^verbatim>\<open>load_existing_events\<close>, \<^verbatim>\<open>save_events\<close>\<close>

text \<open>
  The file \<^verbatim>\<open>events.json\<close> is absent, or reading it raises, or it holds a list of values
  (the program writes nothing but a list).
\<close>

datatype events_file = Absent | Unreadable | Content "json list"

definition load_existing_events :: "events_file \<Rightarrow> json list" where
  "load_existing_events f = (case f of Content events \<Rightarrow> events | _ \<Rightarrow> [])"

text \<open>Writing the file raises or not; nothing catches what it raises.\<close>

definition save_events :: "py_error option \<Rightarrow> json list \<Rightarrow> py_error + unit" where
  "save_events failure events = (case failure of None \<Rightarrow> Inr () | Some e \<Rightarrow> Inl e)"

section \<open>Reconciliation Engine: \<^verbatim>\<open>deduplicate_events\<close>, \<^verbatim>\<open>remove_past_events\<close>\<close>

text \<open>The key of line 225, with the exceptions of its two subscripts and two \<^verbatim>\<open>lower\<close> calls.\<close>

definition event_key :: "json \<Rightarrow> py_error + string" where
  "event_key event =
     py_bind (subscript event ''title'') (\<lambda>t.
     py_bind (py_lower t) (\<lambda>tl.
     py_bind (subscript event ''venue'') (\<lambda>v.
     py_bind (py_lower v) (\<lambda>vl. Inr (tl @ ''_'' @ vl)))))"

fun dedup_loop :: "json list \<Rightarrow> string set \<Rightarrow> json list \<Rightarrow> py_error + json list" where
  "dedup_loop [] seen unique = Inr unique"
| "dedup_loop (event # events) seen unique =
     py_bind (event_key event) (\<lambda>key.
       if key \<notin> seen
       then dedup_loop events (insert key seen) (unique @ [event])
       else dedup_loop events seen unique)"

definition deduplicate_events :: "json list \<Rightarrow> py_error + json list" where
  "deduplicate_events events = dedup_loop events {} []"

definition recurrence_markers :: "string list" where
  "recurrence_markers = [''daily'', ''weekend'', ''until'']"

definition forward_months :: "string list" where
  "forward_months = [''dec'', ''jan'', ''feb'', ''mar'', ''apr'', ''may'', ''jun'']"

text \<open>The two conditions of lines 240 and 242 on the lowered date text.\<close>

definition date_kept :: "string \<Rightarrow> bool" where
  "date_kept date_str =
     (if list_ex (\<lambda>word. contains word date_str) recurrence_markers then True
      else if list_ex (\<lambda>month. contains month date_str) forward_months then True
      else False)"

fun past_loop :: "json list \<Rightarrow> json list \<Rightarrow> py_error + json list" where
  "past_loop [] filtered = Inr filtered"
| "past_loop (event # events) filtered =
     py_bind (subscript event ''date'') (\<lambda>d.
     py_bind (py_lower d) (\<lambda>date_str.
       if date_kept date_str
       then past_loop events (filtered @ [event])
       else past_loop events filtered))"

definition remove_past_events :: "json list \<Rightarrow> py_error + json list" where
  "remove_past_events events = past_loop events []"

section \<open>Run Orchestrator: \<^verbatim>\<open>daily_event_update\<close>\<close>

definition SEARCH_QUERIES :: "string list" where
  "SEARCH_QUERIES =
     [''Singapore events December 2025'',
      ''Singapore concerts 2025 2026'',
      ''Singapore festivals upcoming'',
      ''Singapore exhibitions now'',
      ''things to do Singapore this month'',
      ''Singapore free events'',
      ''Singapore Christmas events 2024'',
      ''Singapore family activities'']"

text \<open>
  Everything outside the program that one run meets. The link checks and the verification
  service are asked once per processed candidate; they take the number of candidates
  processed before, so that the same link or candidate may be answered differently at
  different moments of a run. Each query is searched once.
\<close>

record world =
  stored :: events_file
  fetch_page :: "string \<Rightarrow> page_outcome"
  request :: "nat \<Rightarrow> http_method \<Rightarrow> string \<Rightarrow> http_outcome"
  gemini :: "nat \<Rightarrow> candidate \<Rightarrow> gemini_outcome"
  save_failure :: "py_error option"

text \<open>
  The variables of the two loops: \<open>new_events\<close> as in the program; \<open>processed\<close> counts the
  candidates handled so far; \<open>sent\<close> lists the candidates passed to the verifier so far
  (the last two are not variables of the program: they record what it did).
\<close>

record run_state =
  new_events :: "json list"
  processed :: nat
  sent :: "candidate list"

text \<open>Lines 278 to 294, for one candidate; \<open>n\<close> is \<^verbatim>\<open>len(existing_events)\<close>.\<close>

definition process_result :: "world \<Rightarrow> nat \<Rightarrow> candidate \<Rightarrow> run_state \<Rightarrow> py_error + run_state" where
  "process_result w n result s =
     (let k = processed s; s1 = s\<lparr>processed := k + 1\<rparr>
      in if \<not> fst (verify_link (request w k) (link result)) then Inr s1
         else
           (let s2 = s1\<lparr>sent := sent s1 @ [result]\<rparr>
            in case verify_event_with_gemini (gemini w k result) of
                 None \<Rightarrow> Inr s2
               | Some verified_event \<Rightarrow>
                   if truthy verified_event
                   then py_bind
                          (set_item verified_event ''id''
                             (JInt (int (n + length (new_events s2) + 1))))
                          (\<lambda>ev. Inr (s2\<lparr>new_events := new_events s2 @ [ev]\<rparr>))
                   else Inr s2))"

fun process_results :: "world \<Rightarrow> nat \<Rightarrow> candidate list \<Rightarrow> run_state \<Rightarrow> py_error + run_state" where
  "process_results w n [] s = Inr s"
| "process_results w n (result # results) s =
     py_bind (process_result w n result s) (process_results w n results)"

fun process_queries :: "world \<Rightarrow> nat \<Rightarrow> string list \<Rightarrow> run_state \<Rightarrow> py_error + run_state" where
  "process_queries w n [] s = Inr s"
| "process_queries w n (q # qs) s =
     py_bind (process_results w n (search_google_events (fetch_page w) q) s)
       (process_queries w n qs)"

definition initial_state :: run_state where
  "initial_state = \<lparr>new_events = [], processed = 0, sent = []\<rparr>"

definition daily_event_update :: "world \<Rightarrow> py_error + json list" where
  "daily_event_update w =
     py_bind (remove_past_events (load_existing_events (stored w))) (\<lambda>existing_events.
     py_bind (process_queries w (length existing_events) SEARCH_QUERIES initial_state) (\<lambda>s.
     py_bind (deduplicate_events (existing_events @ new_events s)) (\<lambda>all_events.
     py_bind (save_events (save_failure w) all_events) (\<lambda>_. Inr all_events))))"

section \<open>The properties, in the words of the specification\<close>

text \<open>An event whose dedup key can be computed: \<open>title\<close> and \<open>venue\<close> are present and strings.\<close>

definition has_key :: "json \<Rightarrow> bool" where
  "has_key e = (case event_key e of Inl _ \<Rightarrow> False | Inr _ \<Rightarrow> True)"

text \<open>
  The dedup key in the words of the specification (section 3 and the glossary): the
  case-insensitive pair of \<open>title\<close> and \<open>venue\<close>.
\<close>

definition spec_dedup_key :: "json \<Rightarrow> (string \<times> string) option" where
  "spec_dedup_key e =
     (case subscript e ''title'' of
        Inr (JStr t) \<Rightarrow>
          (case subscript e ''venue'' of
             Inr (JStr v) \<Rightarrow> Some (lower t, lower v)
           | _ \<Rightarrow> None)
      | _ \<Rightarrow> None)"

text \<open>
  The positions of a sequence that hold the first entry of their key, and the entries at
  these positions, in order: what remains when every entry whose key already appeared
  earlier is removed.
\<close>

definition kept_positions :: "(json \<Rightarrow> 'k) \<Rightarrow> json list \<Rightarrow> nat list" where
  "kept_positions key es =
     filter (\<lambda>i. key (es ! i) \<notin> set (map key (take i es))) [0..<length es]"

definition first_per_key :: "(json \<Rightarrow> 'k) \<Rightarrow> json list \<Rightarrow> json list" where
  "first_per_key key es = map (\<lambda>i. es ! i) (kept_positions key es)"

text \<open>
  The merged catalog as section 4.4 describes it: the existing survivors, then the new
  events, without the entries whose dedup key already appeared earlier.
\<close>

definition spec_merge :: "json list \<Rightarrow> json list \<Rightarrow> json list" where
  "spec_merge existing new = first_per_key spec_dedup_key (existing @ new)"

text \<open>
  The key of the amended claim: the two texts of the pair, joined by an underscore into
  one text.
\<close>

definition joined_key :: "json \<Rightarrow> string option" where
  "joined_key e = map_option (\<lambda>(t, v). t @ ''_'' @ v) (spec_dedup_key e)"

text \<open>
  The "still relevant" predicate of section 4.4 on a date text: case-insensitively, it
  contains a recurrence marker or a forward month abbreviation.
\<close>

definition spec_still_relevant :: "string \<Rightarrow> bool" where
  "spec_still_relevant date_text =
     list_ex (\<lambda>marker. contains marker (lower date_text)) (recurrence_markers @ forward_months)"

definition event_relevant :: "json \<Rightarrow> bool" where
  "event_relevant e =
     (case subscript e ''date'' of Inr (JStr d) \<Rightarrow> spec_still_relevant d | _ \<Rightarrow> False)"

definition has_date_text :: "json \<Rightarrow> bool" where
  "has_date_text e = (case subscript e ''date'' of Inr (JStr d) \<Rightarrow> True | _ \<Rightarrow> False)"

text \<open>The candidate a block of the page gives when it has both a title and a link.\<close>

definition candidate_of :: "string \<Rightarrow> raw_hit \<Rightarrow> candidate option" where
  "candidate_of q h =
     (case h of
        Hit (Some t) s (Some a) \<Rightarrow>
          Some \<lparr>title = t, link = (case a of None \<Rightarrow> [] | Some href \<Rightarrow> href),
                snippet = (case s of None \<Rightarrow> [] | Some x \<Rightarrow> x), query = q\<rparr>
      | _ \<Rightarrow> None)"

definition has_title_and_link :: "raw_hit \<Rightarrow> bool" where
  "has_title_and_link h = (case h of Hit (Some t) s (Some a) \<Rightarrow> True | _ \<Rightarrow> False)"

definition accepted_hit :: "raw_hit \<Rightarrow> bool" where
  "accepted_hit h =
     (case candidate_of [] h of
        None \<Rightarrow> False
      | Some c \<Rightarrow> list_ex (\<lambda>domain. contains domain (lower (link c))) event_domains)"

text \<open>The HTTP-success status class of section 4.2.\<close>

definition spec_http_success :: "int \<Rightarrow> bool" where
  "spec_http_success code = (200 \<le> code \<and> code < 300)"

text \<open>
  The first \<open>id\<close> that section 4.4 gives to a new event: one more than the largest
  \<open>id\<close> among the existing events.
\<close>

definition id_of :: "json \<Rightarrow> int" where
  "id_of e = (case subscript e ''id'' of Inr (JInt n) \<Rightarrow> n | _ \<Rightarrow> 0)"

definition spec_first_new_id :: "json list \<Rightarrow> int" where
  "spec_first_new_id existing = fold max (map id_of existing) 0 + 1"

section \<open>Sample runs\<close>

definition mk_event :: "string \<Rightarrow> string \<Rightarrow> string \<Rightarrow> string \<Rightarrow> (string \<times> json) list" where
  "mk_event t d v l =
     [(''title'', JStr t), (''date'', JStr d), (''category'', JStr ''festivals''),
      (''price'', JInt 0), (''venue'', JStr v), (''description'', JStr ''An evening of lights.''),
      (''link'', JStr l), (''emoji'', JStr ''*'')]"

definition accept_reply :: "(string \<times> json) list \<Rightarrow> gemini_outcome" where
  "accept_reply ev =
     Parsed (JObj [(''is_valid'', JBool True), (''event'', JObj ev),
                   (''reasoning'', JStr ''Upcoming event in Singapore'')])"

definition lightup_link :: string where
  "lightup_link = ''https://www.sentosa.com.sg/lightup''"

definition glow_link :: string where
  "glow_link = ''https://www.gardensbythebay.com.sg/glow''"

definition jazz_link :: string where
  "jazz_link = ''https://www.esplanade.com/jazz''"

definition lightup :: "(string \<times> json) list" where
  "lightup = mk_event ''Light-Up'' ''12 Nov'' ''Sentosa'' lightup_link"

definition glow :: "(string \<times> json) list" where
  "glow = mk_event ''Glow Festival'' ''Daily'' ''Gardens'' glow_link"

definition jazz :: "(string \<times> json) list" where
  "jazz = mk_event ''Jazz Night'' ''13 Dec - 14 Dec'' ''Esplanade'' jazz_link"

definition with_id :: "(string \<times> json) list \<Rightarrow> int \<Rightarrow> json" where
  "with_id ev n = JObj (ev @ [(''id'', JInt n)])"

definition hit_for :: "string \<Rightarrow> string \<Rightarrow> raw_hit" where
  "hit_for t l = Hit (Some t) (Some ''Find out more'') (Some (Some l))"

text \<open>A first run, with no stored catalog: two events are found and verified.\<close>

definition first_run :: world where
  "first_run =
     \<lparr>stored = Absent,
      fetch_page = (\<lambda>q. if q = ''Singapore festivals upcoming''
                        then Page [hit_for ''Light-Up at Sentosa'' lightup_link,
                                   hit_for ''Glow Festival'' glow_link]
                        else Page []),
      request = (\<lambda>k m url. Status 200),
      gemini = (\<lambda>k c. if link c = lightup_link then accept_reply lightup
                       else accept_reply glow),
      save_failure = None\<rparr>"

text \<open>The next run, on the catalog the first run wrote: one more event is verified.\<close>

definition second_run :: world where
  "second_run =
     \<lparr>stored = Content [with_id lightup 1, with_id glow 2],
      fetch_page = (\<lambda>q. if q = ''Singapore concerts 2025 2026''
                        then Page [hit_for ''Jazz Night'' jazz_link]
                        else SearchFailed),
      request = (\<lambda>k m url. Status 200),
      gemini = (\<lambda>k c. accept_reply jazz),
      save_failure = None\<rparr>"

text \<open>
  A run in which the service accepts a candidate and returns an event with a title and a
  date but no venue, and accepts a second candidate with a complete event.
\<close>

definition no_venue :: "(string \<times> json) list" where
  "no_venue = [(''title'', JStr ''Light-Up''), (''date'', JStr ''Daily'')]"

definition venue_missing_run :: world where
  "venue_missing_run =
     \<lparr>stored = Absent,
      fetch_page = (\<lambda>q. if q = ''Singapore festivals upcoming''
                        then Page [hit_for ''Light-Up at Sentosa'' lightup_link,
                                   hit_for ''Glow Festival'' glow_link]
                        else Page []),
      request = (\<lambda>k m url. Status 200),
      gemini = (\<lambda>k c. if link c = lightup_link then accept_reply no_venue
                       else accept_reply glow),
      save_failure = None\<rparr>"

text \<open>
  A run on a stored catalog that holds "Glow Festival" with \<open>id\<close> 1, in which the same
  event is found and verified again.
\<close>

definition glow_again_run :: world where
  "glow_again_run =
     \<lparr>stored = Content [with_id glow 1],
      fetch_page = (\<lambda>q. if q = ''Singapore festivals upcoming''
                        then Page [hit_for ''Glow Festival'' glow_link]
                        else Page []),
      request = (\<lambda>k m url. Status 200),
      gemini = (\<lambda>k c. accept_reply glow),
      save_failure = None\<rparr>"

text \<open>
  A run on a stored catalog that holds the event "Art_Walk" at "Gillman", in which the
  event "Art" at "Walk_Gillman" is found and verified.
\<close>

definition art_walk_link :: string where
  "art_walk_link = ''https://www.nhb.gov.sg/artwalk''"

definition art_walk :: "(string \<times> json) list" where
  "art_walk = mk_event ''Art_Walk'' ''Daily'' ''Gillman'' art_walk_link"

definition art :: "(string \<times> json) list" where
  "art = mk_event ''Art'' ''Daily'' ''Walk_Gillman'' art_walk_link"

definition underscore_run :: world where
  "underscore_run =
     \<lparr>stored = Content [with_id art_walk 1],
      fetch_page = (\<lambda>q. if q = ''Singapore exhibitions now''
                        then Page [hit_for ''Art at Gillman'' art_walk_link]
                        else Page []),
      request = (\<lambda>k m url. Status 200),
      gemini = (\<lambda>k c. accept_reply art),
      save_failure = None\<rparr>"

text \<open>Link checks: every request answered 204; HEAD answered 405 and GET 200; HEAD raising.\<close>

definition answers_204 :: "http_method \<Rightarrow> string \<Rightarrow> http_outcome" where
  "answers_204 m url = Status 204"

definition head_not_allowed :: "http_method \<Rightarrow> string \<Rightarrow> http_outcome" where
  "head_not_allowed m url = (case m of HEAD \<Rightarrow> Status 405 | GET \<Rightarrow> Status 200)"

definition head_times_out :: "http_method \<Rightarrow> string \<Rightarrow> http_outcome" where
  "head_times_out m url = (case m of HEAD \<Rightarrow> Raised | GET \<Rightarrow> Status 200)"

text \<open>A result page with a block without title, a block without link and a malformed block.\<close>

definition sample_hits :: "raw_hit list" where
  "sample_hits =
     [Hit None (Some ''No heading'') (Some (Some glow_link)),
      hit_for ''Glow Festival'' glow_link,
      Hit (Some ''No anchor'') None None,
      Malformed,
      hit_for ''Some blog'' ''https://randomblog.example.com/post'',
      hit_for ''Jazz Night'' jazz_link]"

definition sample_page :: "string \<Rightarrow> page_outcome" where
  "sample_page q = (if q = ''Singapore free events'' then Page sample_hits else SearchFailed)"

text \<open>A run on that page, with every link alive and the verification service unavailable.\<close>

definition sample_world :: world where
  "sample_world =
     \<lparr>stored = Absent,
      fetch_page = sample_page,
      request = (\<lambda>k m url. Status 200),
      gemini = (\<lambda>k c. StatusNot200 503),
      save_failure = None\<rparr>"

text \<open>A stored catalog with a recurring event, a lapsed one and an entry with a date only.\<close>

definition date_only :: json where
  "date_only = JObj [(''date'', JStr ''Daily'')]"

definition sample_catalog :: "json list" where
  "sample_catalog = [with_id glow 1, with_id lightup 2, date_only]"

definition undated :: json where
  "undated = JObj (mk_event ''Pop-up Market'' [] ''Tiong Bahru'' ''https://www.peatix.com/market'')"

definition unclear_catalog :: "json list" where
  "unclear_catalog =
     [undated, JObj (mk_event ''Harbour Walk'' ''TBA'' ''Marina Bay'' ''https://www.marinabay.sg/walk'')]"

section \<open>Exceptions in sequence\<close>

lemma py_bind_Inr [simp]: "py_bind (Inr x) f = f x"
  by (simp add: py_bind_def)

lemma py_bind_Inl [simp]: "py_bind (Inl e) f = Inl e"
  by (simp add: py_bind_def)

lemma py_bind_eq_Inr: "py_bind m f = Inr y \<longleftrightarrow> (\<exists>x. m = Inr x \<and> f x = Inr y)"
  by (cases m) simp_all

section \<open>Deduplication\<close>

lemma has_key_iff: "has_key e \<longleftrightarrow> (\<exists>k. event_key e = Inr k)"
  by (cases "event_key e") (simp_all add: has_key_def)

lemma upt_Suc_shift: "[0..<Suc n] = 0 # map Suc [0..<n]"
  by (simp add: upt_conv_Cons map_Suc_upt del: upt_Suc)

lemma dedup_loop_index:
  "list_all has_key es \<Longrightarrow>
   dedup_loop es seen acc =
     Inr (acc @ map (\<lambda>i. es ! i)
        (filter (\<lambda>i. event_key (es ! i) \<notin> Inr ` seen \<union> set (map event_key (take i es)))
           [0..<length es]))"
proof (induction es arbitrary: seen acc)
  case Nil
  then show ?case by simp
next
  case (Cons e es)
  from Cons.prems have "has_key e" and rest: "list_all has_key es"
    by simp_all
  then obtain k where k: "event_key e = Inr k"
    using has_key_iff by blast
  have inj: "\<And>S. Inr k \<in> (Inr ` S :: (py_error + string) set) \<longleftrightarrow> k \<in> S"
    by auto
  show ?case
  proof (cases "k \<in> seen")
    case True
    then have absorb: "\<And>x P. (x \<notin> (Inr ` seen :: (py_error + string) set) \<and> x \<noteq> Inr k \<and> P)
        \<longleftrightarrow> (x \<notin> Inr ` seen \<and> P)"
      by auto
    show ?thesis
      using True k Cons.IH [OF rest, of seen acc]
      by (simp add: upt_Suc_shift filter_map comp_def inj absorb del: upt_Suc)
  next
    case False
    show ?thesis
      using False k Cons.IH [OF rest, of "insert k seen" "acc @ [e]"]
      by (simp add: upt_Suc_shift filter_map comp_def inj conj_ac del: upt_Suc)
  qed
qed

lemma dedup_loop_result:
  "dedup_loop es seen acc = Inr us \<Longrightarrow>
   \<exists>r. us = acc @ r \<and> list_all has_key r \<and> distinct (map event_key r) \<and>
       set (map event_key r) \<inter> Inr ` seen = {} \<and> set r \<subseteq> set es"
proof (induction es arbitrary: seen acc)
  case Nil
  then show ?case by simp
next
  case (Cons e es)
  from Cons.prems obtain k where k: "event_key e = Inr k"
    and step: "(if k \<notin> seen then dedup_loop es (insert k seen) (acc @ [e])
                else dedup_loop es seen acc) = Inr us"
    by (auto simp: py_bind_eq_Inr)
  show ?case
  proof (cases "k \<in> seen")
    case True
    with step have "dedup_loop es seen acc = Inr us" by simp
    from Cons.IH [OF this] show ?thesis by auto
  next
    case False
    with step have "dedup_loop es (insert k seen) (acc @ [e]) = Inr us" by simp
    from Cons.IH [OF this] obtain r where r: "us = (acc @ [e]) @ r" "list_all has_key r"
      "distinct (map event_key r)" "set (map event_key r) \<inter> Inr ` insert k seen = {}"
      "set r \<subseteq> set es"
      by blast
    have "us = acc @ (e # r)" using r(1) by simp
    moreover have "list_all has_key (e # r)" using r(2) k by (simp add: has_key_iff)
    moreover have "distinct (map event_key (e # r))" using r(3,4) k by auto
    moreover have "set (map event_key (e # r)) \<inter> Inr ` seen = {}" using r(4) k False by auto
    moreover have "set (e # r) \<subseteq> set (e # es)" using r(5) by auto
    ultimately show ?thesis by blast
  qed
qed

lemma dedup_loop_fixed:
  "list_all has_key r \<Longrightarrow> distinct (map event_key r) \<Longrightarrow>
   set (map event_key r) \<inter> Inr ` seen = {} \<Longrightarrow>
   dedup_loop r seen acc = Inr (acc @ r)"
proof (induction r arbitrary: seen acc)
  case Nil
  then show ?case by simp
next
  case (Cons e r)
  from Cons.prems(1) have "has_key e" and rest: "list_all has_key r"
    by simp_all
  then obtain k where k: "event_key e = Inr k"
    using has_key_iff by blast
  from Cons.prems(3) k have fresh: "k \<notin> seen" by auto
  have "set (map event_key r) \<inter> Inr ` insert k seen = {}"
    using Cons.prems(2,3) k by auto
  with Cons.IH [OF rest, of "insert k seen" "acc @ [e]"] Cons.prems(2)
  have "dedup_loop r (insert k seen) (acc @ [e]) = Inr (acc @ e # r)" by simp
  with k fresh show ?case by simp
qed

section \<open>The staleness filter\<close>

lemma has_date_text_iff: "has_date_text e \<longleftrightarrow> (\<exists>d. subscript e ''date'' = Inr (JStr d))"
  by (auto simp: has_date_text_def split: sum.splits json.splits)

lemma date_kept_spec: "date_kept (lower d) = spec_still_relevant d"
  by (simp add: date_kept_def spec_still_relevant_def)

lemma past_loop_result:
  "past_loop es acc = Inr kept \<Longrightarrow>
   kept = acc @ filter event_relevant es \<and> list_all has_date_text es"
proof (induction es arbitrary: acc)
  case Nil
  then show ?case by simp
next
  case (Cons e es)
  from Cons.prems obtain d date_str where d: "subscript e ''date'' = Inr d"
    and l: "py_lower d = Inr date_str"
    and step: "(if date_kept date_str then past_loop es (acc @ [e]) else past_loop es acc) = Inr kept"
    by (auto simp: py_bind_eq_Inr)
  from l obtain dtext where dtext: "d = JStr dtext" "date_str = lower dtext"
    by (auto simp: py_lower_def split: json.splits)
  have rel: "event_relevant e = date_kept date_str"
    using d dtext by (simp add: event_relevant_def date_kept_spec)
  have dt: "has_date_text e"
    using d dtext by (simp add: has_date_text_def)
  show ?case
  proof (cases "date_kept date_str")
    case True
    with step have "past_loop es (acc @ [e]) = Inr kept" by simp
    from Cons.IH [OF this] rel True dt show ?thesis by simp
  next
    case False
    with step have "past_loop es acc = Inr kept" by simp
    from Cons.IH [OF this] rel False dt show ?thesis by simp
  qed
qed

lemma past_loop_total:
  "list_all has_date_text es \<Longrightarrow> past_loop es acc = Inr (acc @ filter event_relevant es)"
proof (induction es arbitrary: acc)
  case Nil
  then show ?case by simp
next
  case (Cons e es)
  from Cons.prems have "has_date_text e" and rest: "list_all has_date_text es"
    by simp_all
  then obtain dtext where dtext: "subscript e ''date'' = Inr (JStr dtext)"
    using has_date_text_iff by blast
  have rel: "event_relevant e = date_kept (lower dtext)"
    using dtext by (simp add: event_relevant_def date_kept_spec)
  show ?case
    using dtext rel Cons.IH [OF rest] by (simp add: py_lower_def)
qed

lemma remove_past_events_filter:
  "list_all has_date_text events \<Longrightarrow>
   remove_past_events events = Inr (filter event_relevant events)"
  by (simp add: remove_past_events_def past_loop_total)

lemma Daily_relevant: "spec_still_relevant ''Daily''"
  by code_simp

lemma Nov12_not_relevant: "\<not> spec_still_relevant ''12 Nov''"
  by code_simp

section \<open>The search loop\<close>

lemma search_step_accepted:
  "search_step q h results =
     (if accepted_hit h then results @ [the (candidate_of q h)] else results)"
proof (cases h)
  case Malformed
  then show ?thesis
    by (simp add: search_step_def accepted_hit_def candidate_of_def)
next
  case (Hit t s a)
  show ?thesis
  proof (cases t)
    case None
    with Hit show ?thesis
      by (simp add: search_step_def accepted_hit_def candidate_of_def)
  next
    case (Some tt)
    show ?thesis
    proof (cases a)
      case None
      with Hit Some show ?thesis
        by (simp add: search_step_def accepted_hit_def candidate_of_def)
    next
      case (Some aa)
      with Hit \<open>t = Some tt\<close> show ?thesis
        by (simp add: search_step_def accepted_hit_def candidate_of_def Let_def)
    qed
  qed
qed

lemma search_loop_filter:
  "search_loop q hs results = results @ map (\<lambda>h. the (candidate_of q h)) (filter accepted_hit hs)"
  by (induction hs arbitrary: results) (simp_all add: search_step_accepted)

lemma has_title_and_link_candidate: "has_title_and_link h \<longleftrightarrow> candidate_of q h \<noteq> None"
  by (simp add: has_title_and_link_def candidate_of_def split: raw_hit.splits option.splits)

lemma accepted_hit_both: "accepted_hit h \<Longrightarrow> has_title_and_link h \<and> candidate_of q h \<noteq> None"
  using has_title_and_link_candidate [of h q] has_title_and_link_candidate [of h "[]"]
  by (cases "candidate_of [] h") (simp_all add: accepted_hit_def)

lemma search_results_from_hits:
  "length (search_google_events fetch q) \<le> 5 \<and>
   (fetch q = SearchFailed \<longrightarrow> search_google_events fetch q = []) \<and>
   (\<forall>hits. fetch q = Page hits \<longrightarrow>
      (\<exists>hs. subseq hs hits \<and> list_all has_title_and_link hs \<and>
            map Some (search_google_events fetch q) = map (candidate_of q) hs))"
proof (cases "fetch q")
  case SearchFailed
  then show ?thesis by (simp add: search_google_events_def)
next
  case (Page hits)
  define hs where "hs = take 5 (filter accepted_hit hits)"
  have res: "search_google_events fetch q = map (\<lambda>h. the (candidate_of q h)) hs"
    using Page by (simp add: hs_def search_google_events_def search_loop_filter take_map)
  have acc: "accepted_hit h" if "h \<in> set hs" for h
    using that by (auto simp: hs_def dest: in_set_takeD)
  have "subseq hs (filter accepted_hit hits)"
    unfolding hs_def
    by (metis append_take_drop_id subseq_order.order_refl list_emb_append_mono list_emb_Nil
        append_Nil2)
  then have sub: "subseq hs hits"
    using subseq_filter_left subseq_order.order_trans by blast
  have both: "list_all has_title_and_link hs"
    unfolding list_all_iff
  proof
    fix h
    assume "h \<in> set hs"
    then show "has_title_and_link h"
      using acc accepted_hit_both by blast
  qed
  have some: "Some (the (candidate_of q h)) = candidate_of q h" if "h \<in> set hs" for h
    using acc [OF that] accepted_hit_both [of h q] by auto
  have "map Some (search_google_events fetch q) = map (Some \<circ> (\<lambda>h. the (candidate_of q h))) hs"
    unfolding res by (simp only: map_map)
  also have "\<dots> = map (candidate_of q) hs"
    by (rule map_cong) (simp_all add: some)
  finally have same: "map Some (search_google_events fetch q) = map (candidate_of q) hs" .
  have short: "length (search_google_events fetch q) \<le> 5"
    unfolding res by (simp add: hs_def)
  from sub both same have "\<exists>hs. subseq hs hits \<and> list_all has_title_and_link hs \<and>
      map Some (search_google_events fetch q) = map (candidate_of q) hs"
    by blast
  with short Page show ?thesis by simp
qed

section \<open>Merging\<close>

lemma dedup_loop_keeps_distinct_front:
  "list_all has_key xs \<Longrightarrow> distinct (map event_key xs) \<Longrightarrow>
   set (map event_key xs) \<inter> Inr ` seen = {} \<Longrightarrow>
   \<exists>seen'. dedup_loop (xs @ ys) seen acc = dedup_loop ys seen' (acc @ xs)"
proof (induction xs arbitrary: seen acc)
  case Nil
  then show ?case by auto
next
  case (Cons e xs)
  from Cons.prems(1) have "has_key e" and rest: "list_all has_key xs"
    by simp_all
  then obtain k where k: "event_key e = Inr k"
    using has_key_iff by blast
  from Cons.prems(3) k have fresh: "k \<notin> seen" by auto
  have disj: "set (map event_key xs) \<inter> Inr ` insert k seen = {}"
    using Cons.prems(2,3) k by auto
  from Cons.prems(2) have dist: "distinct (map event_key xs)" by simp
  from Cons.IH [OF rest dist disj, of "acc @ [e]"] k fresh show ?case by simp
qed

lemma event_key_joined: "event_key e = Inr k \<longleftrightarrow> joined_key e = Some k"
proof (cases "subscript e ''title''")
  case (Inl a)
  then show ?thesis
    by (simp add: event_key_def joined_key_def spec_dedup_key_def)
next
  case (Inr t)
  note title = this
  show ?thesis
  proof (cases "py_lower t")
    case (Inl a)
    with title show ?thesis
      by (cases t) (simp_all add: event_key_def joined_key_def spec_dedup_key_def py_lower_def)
  next
    case (Inr tl)
    then obtain ts where ts: "t = JStr ts" "tl = lower ts"
      by (cases t) (simp_all add: py_lower_def)
    show ?thesis
    proof (cases "subscript e ''venue''")
      case (Inl a)
      with title ts show ?thesis
        by (simp add: event_key_def joined_key_def spec_dedup_key_def py_lower_def)
    next
      case (Inr v)
      with title ts show ?thesis
        by (cases v) (auto simp: event_key_def joined_key_def spec_dedup_key_def py_lower_def)
    qed
  qed
qed

lemma has_key_joined: "has_key e \<longleftrightarrow> joined_key e \<noteq> None"
  using event_key_joined [of e] by (auto simp: has_key_iff)

lemma keys_agree:
  assumes "has_key a" and "has_key b"
  shows "event_key a = event_key b \<longleftrightarrow> joined_key a = joined_key b"
proof -
  from assms obtain ka kb where "event_key a = Inr ka" "event_key b = Inr kb"
    using has_key_iff by blast
  moreover from this have "joined_key a = Some ka" "joined_key b = Some kb"
    using event_key_joined by blast+
  ultimately show ?thesis by simp
qed

lemma seen_before_agree:
  assumes "has_key a" and "\<forall>b \<in> set bs. has_key b"
  shows "event_key a \<in> set (map event_key bs) \<longleftrightarrow> joined_key a \<in> set (map joined_key bs)"
proof -
  have "event_key a \<in> set (map event_key bs) \<longleftrightarrow> (\<exists>b \<in> set bs. event_key a = event_key b)"
    by auto
  also have "\<dots> \<longleftrightarrow> (\<exists>b \<in> set bs. joined_key a = joined_key b)"
    using assms keys_agree by blast
  also have "\<dots> \<longleftrightarrow> joined_key a \<in> set (map joined_key bs)"
    by auto
  finally show ?thesis .
qed

lemma kept_positions_agree:
  assumes "list_all has_key es"
  shows "kept_positions event_key es = kept_positions joined_key es"
  unfolding kept_positions_def
proof (rule filter_cong [OF refl])
  fix i
  assume "i \<in> set [0..<length es]"
  then have i: "i < length es" by simp
  from assms have all: "\<forall>b \<in> set es. has_key b"
    by (simp add: list_all_iff)
  from i all have a: "has_key (es ! i)" by simp
  from all have b: "\<forall>b \<in> set (take i es). has_key b"
    by (auto dest: in_set_takeD)
  from seen_before_agree [OF a b]
  show "(event_key (es ! i) \<notin> set (map event_key (take i es))) =
        (joined_key (es ! i) \<notin> set (map joined_key (take i es)))"
    by simp
qed

lemma deduplicate_events_first_per_key:
  assumes "list_all has_key es"
  shows "deduplicate_events es = Inr (first_per_key joined_key es)"
proof -
  have "deduplicate_events es = Inr (map (\<lambda>i. es ! i) (kept_positions event_key es))"
    unfolding deduplicate_events_def kept_positions_def
    using dedup_loop_index [OF assms, of "{}" "[]"] by simp
  then show ?thesis
    by (simp add: first_per_key_def kept_positions_agree [OF assms])
qed

lemma dedup_loop_has_keys:
  "dedup_loop es seen acc = Inr us \<Longrightarrow> list_all has_key es"
proof (induction es arbitrary: seen acc)
  case Nil
  then show ?case by simp
next
  case (Cons e es)
  from Cons.prems obtain k where k: "event_key e = Inr k"
    and step: "(if k \<notin> seen then dedup_loop es (insert k seen) (acc @ [e])
                else dedup_loop es seen acc) = Inr us"
    by (auto simp: py_bind_eq_Inr)
  from step have "list_all has_key es"
    using Cons.IH by (cases "k \<in> seen") simp_all
  moreover from k have "has_key e"
    using has_key_iff by blast
  ultimately show ?case
    by simp
qed

lemma distinct_keys_agree:
  assumes "list_all has_key xs"
  shows "distinct (map joined_key xs) \<longleftrightarrow> distinct (map event_key xs)"
proof -
  from assms have all: "\<forall>b \<in> set xs. has_key b"
    by (simp add: list_all_iff)
  then have "inj_on joined_key (set xs) \<longleftrightarrow> inj_on event_key (set xs)"
    using keys_agree unfolding inj_on_def by blast
  then show ?thesis
    by (simp add: distinct_map)
qed

lemma merge_prefix:
  assumes "list_all has_key (existing @ new)"
    and "distinct (map joined_key existing)"
  shows "prefix existing (first_per_key joined_key (existing @ new))"
proof -
  from assms(1) have ex: "list_all has_key existing" by simp
  from assms(2) have dist: "distinct (map event_key existing)"
    using distinct_keys_agree [OF ex] by simp
  have "set (map event_key existing) \<inter> Inr ` ({} :: string set) = {}" by simp
  from dedup_loop_keeps_distinct_front [OF ex dist this, of new "[]"]
  obtain seen' where "dedup_loop (existing @ new) {} [] = dedup_loop new seen' existing"
    by auto
  moreover have "dedup_loop (existing @ new) {} [] = Inr (first_per_key joined_key (existing @ new))"
    using deduplicate_events_first_per_key [OF assms(1)] by (simp add: deduplicate_events_def)
  ultimately have "dedup_loop new seen' existing = Inr (first_per_key joined_key (existing @ new))"
    by simp
  from dedup_loop_result [OF this] show ?thesis
    by (auto simp: prefix_def)
qed

lemma same_pair_same_joined:
  "spec_dedup_key a = spec_dedup_key b \<Longrightarrow> joined_key a = joined_key b"
  by (simp add: joined_key_def)

lemma pair_seen_not_kept:
  assumes "j < length es"
    and "spec_dedup_key (es ! j) \<in> set (map spec_dedup_key (take j es))"
  shows "j \<notin> set (kept_positions joined_key es)"
proof -
  from assms(2) obtain b where b: "b \<in> set (take j es)"
    and same: "spec_dedup_key (es ! j) = spec_dedup_key b"
    by auto
  from same have "joined_key (es ! j) = joined_key b"
    by (rule same_pair_same_joined)
  from this b have "joined_key (es ! j) \<in> joined_key ` set (take j es)"
    by (rule image_eqI)
  then show ?thesis
    by (simp add: kept_positions_def)
qed

section \<open>The collection of new events\<close>

lemma verify_event_with_gemini_dict:
  assumes "verify_event_with_gemini out = Some ev"
  shows "\<exists>kvs. ev = JObj kvs"
proof (cases out)
  case (Parsed result)
  with assms have "verify_result result = Inr (Some ev)"
    by (simp add: verify_event_with_gemini_def split: sum.splits)
  then obtain v where "subscript result ''event'' = Inr ev" and "subscript ev ''title'' = Inr v"
    by (auto simp: verify_result_def py_bind_eq_Inr split: if_splits)
  then show ?thesis
    by (cases ev) (simp_all add: subscript_def)
qed (use assms in \<open>simp_all add: verify_event_with_gemini_def\<close>)

lemma id_of_set_item:
  "set_item (JObj kvs) ''id'' (JInt v) = Inr ev \<Longrightarrow> id_of ev = v"
  by (auto simp: set_item_def id_of_def subscript_def AList.update_conv')

lemma process_result_appends:
  "\<exists>s' added. process_result w n r s = Inr s' \<and> new_events s' = new_events s @ added \<and>
     map id_of added =
       map (\<lambda>i. int (n + i + 1)) [length (new_events s)..<length (new_events s) + length added]"
proof (cases "fst (verify_link (request w (processed s)) (link r))")
  case False
  then show ?thesis
    by (simp add: process_result_def Let_def)
next
  case True
  show ?thesis
  proof (cases "verify_event_with_gemini (gemini w (processed s) r)")
    case None
    with True show ?thesis
      by (simp add: process_result_def Let_def)
  next
    case (Some ev)
    then obtain kvs where kvs: "ev = JObj kvs"
      using verify_event_with_gemini_dict by blast
    show ?thesis
    proof (cases "truthy ev")
      case False
      with True Some show ?thesis
        by (simp add: process_result_def Let_def)
    next
      case truthy: True
      let ?v = "int (n + length (new_events s) + 1)"
      let ?ev = "JObj (AList.update ''id'' (JInt ?v) kvs)"
      have "id_of ?ev = ?v"
        by (rule id_of_set_item) (simp add: set_item_def)
      with True Some truthy kvs show ?thesis
        by (simp add: process_result_def Let_def set_item_def)
    qed
  qed
qed

lemma process_results_appends:
  "\<exists>s' added. process_results w n rs s = Inr s' \<and> new_events s' = new_events s @ added \<and>
     map id_of added =
       map (\<lambda>i. int (n + i + 1)) [length (new_events s)..<length (new_events s) + length added]"
proof (induction rs arbitrary: s)
  case Nil
  then show ?case by simp
next
  case (Cons r rs)
  from process_result_appends [of w n r s] obtain s1 a1 where
    one: "process_result w n r s = Inr s1" "new_events s1 = new_events s @ a1"
      "map id_of a1 = map (\<lambda>i. int (n + i + 1))
         [length (new_events s)..<length (new_events s) + length a1]"
    by blast
  from Cons.IH [of s1] obtain s2 a2 where
    two: "process_results w n rs s1 = Inr s2" "new_events s2 = new_events s1 @ a2"
      "map id_of a2 = map (\<lambda>i. int (n + i + 1))
         [length (new_events s1)..<length (new_events s1) + length a2]"
    by blast
  have "process_results w n (r # rs) s = Inr s2"
    using one(1) two(1) by simp
  moreover have "new_events s2 = new_events s @ (a1 @ a2)"
    using one(2) two(2) by simp
  moreover have "map id_of (a1 @ a2) = map (\<lambda>i. int (n + i + 1))
      [length (new_events s)..<length (new_events s) + length (a1 @ a2)]"
  proof -
    let ?l = "length (new_events s)"
    have "[?l..<?l + length a1 + length a2] = [?l..<?l + length a1] @ [?l + length a1..<?l + length a1 + length a2]"
      using upt_add_eq_append [of ?l "?l + length a1" "length a2"] by simp
    with one(2,3) two(3) show ?thesis
      by (simp add: add.assoc)
  qed
  ultimately show ?case by blast
qed

lemma process_queries_appends:
  "\<exists>s' added. process_queries w n qs s = Inr s' \<and> new_events s' = new_events s @ added \<and>
     map id_of added =
       map (\<lambda>i. int (n + i + 1)) [length (new_events s)..<length (new_events s) + length added]"
proof (induction qs arbitrary: s)
  case Nil
  then show ?case by simp
next
  case (Cons q qs)
  from process_results_appends [of w n "search_google_events (fetch_page w) q" s]
  obtain s1 a1 where
    one: "process_results w n (search_google_events (fetch_page w) q) s = Inr s1"
      "new_events s1 = new_events s @ a1"
      "map id_of a1 = map (\<lambda>i. int (n + i + 1))
         [length (new_events s)..<length (new_events s) + length a1]"
    by blast
  from Cons.IH [of s1] obtain s2 a2 where
    two: "process_queries w n qs s1 = Inr s2" "new_events s2 = new_events s1 @ a2"
      "map id_of a2 = map (\<lambda>i. int (n + i + 1))
         [length (new_events s1)..<length (new_events s1) + length a2]"
    by blast
  have "process_queries w n (q # qs) s = Inr s2"
    using one(1) two(1) by simp
  moreover have "new_events s2 = new_events s @ (a1 @ a2)"
    using one(2) two(2) by simp
  moreover have "map id_of (a1 @ a2) = map (\<lambda>i. int (n + i + 1))
      [length (new_events s)..<length (new_events s) + length (a1 @ a2)]"
  proof -
    let ?l = "length (new_events s)"
    have "[?l..<?l + length a1 + length a2] = [?l..<?l + length a1] @ [?l + length a1..<?l + length a1 + length a2]"
      using upt_add_eq_append [of ?l "?l + length a1" "length a2"] by simp
    with one(2,3) two(3) show ?thesis
      by (simp add: add.assoc)
  qed
  ultimately show ?case by blast
qed

lemma collection_never_raises:
  "\<exists>s. process_queries w n SEARCH_QUERIES initial_state = Inr s \<and>
       map id_of (new_events s) = map (\<lambda>i. int (n + i + 1)) [0..<length (new_events s)]"
  using process_queries_appends [of w n SEARCH_QUERIES initial_state]
  by (auto simp: initial_state_def)

lemma daily_event_update_phases:
  assumes "daily_event_update w = Inr catalog"
  shows "\<exists>existing s. remove_past_events (load_existing_events (stored w)) = Inr existing \<and>
     process_queries w (length existing) SEARCH_QUERIES initial_state = Inr s \<and>
     deduplicate_events (existing @ new_events s) = Inr catalog \<and> save_failure w = None"
  using assms
  by (auto simp: daily_event_update_def py_bind_eq_Inr save_events_def split: option.splits)

section \<open>What reaches the verifier\<close>

lemma process_result_sent:
  assumes "process_result w n r s = Inr s'"
  shows "set (sent s') \<subseteq> insert r (set (sent s))"
proof (cases "fst (verify_link (request w (processed s)) (link r))")
  case False
  with assms show ?thesis
    by (auto simp: process_result_def Let_def)
next
  case True
  show ?thesis
  proof (cases "verify_event_with_gemini (gemini w (processed s) r)")
    case None
    with True assms show ?thesis
      by (auto simp: process_result_def Let_def)
  next
    case (Some ev)
    with True assms show ?thesis
      by (auto simp: process_result_def Let_def py_bind_eq_Inr split: if_splits)
  qed
qed

lemma process_results_sent:
  "process_results w n rs s = Inr s' \<Longrightarrow> set (sent s') \<subseteq> set (sent s) \<union> set rs"
proof (induction rs arbitrary: s)
  case Nil
  then show ?case by simp
next
  case (Cons r rs)
  from Cons.prems obtain s1 where one: "process_result w n r s = Inr s1"
    and rest: "process_results w n rs s1 = Inr s'"
    by (auto simp: py_bind_eq_Inr)
  from process_result_sent [OF one] Cons.IH [OF rest] show ?case
    by auto
qed

lemma process_queries_sent:
  "process_queries w n qs s = Inr s' \<Longrightarrow>
   set (sent s') \<subseteq> set (sent s) \<union> (\<Union>q \<in> set qs. set (search_google_events (fetch_page w) q))"
proof (induction qs arbitrary: s)
  case Nil
  then show ?case by simp
next
  case (Cons q qs)
  from Cons.prems obtain s1 where
    one: "process_results w n (search_google_events (fetch_page w) q) s = Inr s1"
    and rest: "process_queries w n qs s1 = Inr s'"
    by (auto simp: py_bind_eq_Inr)
  from process_results_sent [OF one] Cons.IH [OF rest] show ?case
    by auto
qed

lemma sent_from_search:
  "\<forall>s. process_queries w n SEARCH_QUERIES initial_state = Inr s \<longrightarrow>
      (\<forall>c \<in> set (sent s).
          \<exists>q' \<in> set SEARCH_QUERIES. c \<in> set (search_google_events (fetch_page w) q'))"
proof (intro allI impI ballI)
  fix s c
  assume run: "process_queries w n SEARCH_QUERIES initial_state = Inr s" and c: "c \<in> set (sent s)"
  from process_queries_sent [OF run] c show
    "\<exists>q' \<in> set SEARCH_QUERIES. c \<in> set (search_google_events (fetch_page w) q')"
    by (auto simp: initial_state_def)
qed

section \<open>The sample runs, evaluated\<close>

lemma first_run_result:
  "daily_event_update first_run = Inr [with_id lightup 1, with_id glow 2]"
  by code_simp

lemma second_run_result:
  "daily_event_update second_run = Inr [with_id glow 2, with_id jazz 2]"
  by code_simp

lemma second_run_stored:
  "stored second_run = Content [with_id lightup 1, with_id glow 2]"
  by (simp add: second_run_def)

lemma glow_again_result:
  "daily_event_update glow_again_run = Inr [with_id glow 1]"
  by code_simp

section \<open>The claims\<close>

text \<open>
  C1. All \<open>id\<close> values in the merged catalog of a run are pairwise distinct. The program
  does not achieve this. The first sample run, from no stored catalog, writes the events
  "Light-Up" (\<open>id\<close> 1, date "12 Nov") and "Glow Festival" (\<open>id\<close> 2, date "Daily"). The
  second sample run reads that catalog, drops "Light-Up" as lapsed, and gives the newly
  verified "Jazz Night" the \<open>id\<close> \<open>len(existing_events) + len(new_events) + 1 = 2\<close>, which
  "Glow Festival" already has: the catalog it writes holds the \<open>id\<close> 2 twice.
\<close>

theorem second_run_repeats_an_id:
  "daily_event_update first_run = Inr [with_id lightup 1, with_id glow 2] \<and>
   stored second_run = Content [with_id lightup 1, with_id glow 2] \<and>
   daily_event_update second_run = Inr [with_id glow 2, with_id jazz 2] \<and>
   map id_of [with_id glow 2, with_id jazz 2] = [2, 2] \<and>
   \<not> distinct (map id_of [with_id glow 2, with_id jazz 2])"
proof -
  have "map id_of [with_id glow 2, with_id jazz 2] = [2, 2]"
    by code_simp
  then show ?thesis
    using first_run_result second_run_result second_run_stored by simp
qed

text \<open>
  C2. New events receive \<open>id\<close> values that continue from one plus the largest \<open>id\<close>
  among the existing events. The program counts instead: the \<open>i\<close>-th new event of a run
  (from 0) gets \<open>len(existing_events) + i + 1\<close> (lemma \<open>collection_never_raises\<close>). In the
  second sample run the one existing survivor has \<open>id\<close> 2, so the specification's first
  new \<open>id\<close> is 3, and the program assigns 2.
\<close>

theorem second_run_new_id_from_count:
  "remove_past_events (load_existing_events (stored second_run)) = Inr [with_id glow 2] \<and>
   map_sum id new_events (process_queries second_run 1 SEARCH_QUERIES initial_state) =
     Inr [with_id jazz 2] \<and>
   id_of (with_id jazz 2) = 2 \<and>
   spec_first_new_id [with_id glow 2] = 3"
  by code_simp

text \<open>
  C3. Every event of the catalog written at the end of a run satisfies the "still
  relevant" predicate, new events included. The filter is applied to the stored events
  only (line 265); a newly verified event enters the catalog whatever its date text says.
  In the first sample run the verified event "Light-Up" has the date "12 Nov" and is
  written.
\<close>

theorem first_run_writes_lapsed_date:
  "daily_event_update first_run = Inr [with_id lightup 1, with_id glow 2] \<and>
   with_id lightup 1 \<in> set [with_id lightup 1, with_id glow 2] \<and>
   subscript (with_id lightup 1) ''date'' = Inr (JStr ''12 Nov'') \<and>
   \<not> event_relevant (with_id lightup 1)"
proof -
  have "subscript (with_id lightup 1) ''date'' = Inr (JStr ''12 Nov'')"
    by code_simp
  moreover have "\<not> event_relevant (with_id lightup 1)"
    by code_simp
  ultimately show ?thesis
    using first_run_result by simp
qed

text \<open>
  C3, as amended. Every event of the catalog written at the end of a run is either an
  existing survivor, which satisfies the "still relevant" predicate, or one of the events
  newly verified in this run, to which the predicate is not applied.
\<close>

theorem catalog_entries_relevant_or_new:
  assumes "daily_event_update w = Inr catalog"
  shows "\<exists>existing s. remove_past_events (load_existing_events (stored w)) = Inr existing \<and>
     process_queries w (length existing) SEARCH_QUERIES initial_state = Inr s \<and>
     (\<forall>e \<in> set catalog. (e \<in> set existing \<and> event_relevant e) \<or> e \<in> set (new_events s))"
proof -
  from daily_event_update_phases [OF assms] obtain existing s where
    ph: "remove_past_events (load_existing_events (stored w)) = Inr existing"
      "process_queries w (length existing) SEARCH_QUERIES initial_state = Inr s"
      "deduplicate_events (existing @ new_events s) = Inr catalog"
    by blast
  from ph(1) have "existing = filter event_relevant (load_existing_events (stored w))"
    using past_loop_result [of "load_existing_events (stored w)" "[]" existing]
    by (simp add: remove_past_events_def)
  then have rel: "\<forall>e \<in> set existing. event_relevant e" by simp
  from ph(3) have "set catalog \<subseteq> set (existing @ new_events s)"
    using dedup_loop_result [of "existing @ new_events s" "{}" "[]" catalog]
    by (auto simp: deduplicate_events_def)
  with rel have "\<forall>e \<in> set catalog. (e \<in> set existing \<and> event_relevant e) \<or> e \<in> set (new_events s)"
    by auto
  with ph(1,2) show ?thesis by blast
qed

theorem catalog_entries_relevant_or_new_witness:
  "daily_event_update second_run = Inr [with_id glow 2, with_id jazz 2] \<and>
   (\<exists>existing s.
      remove_past_events (load_existing_events (stored second_run)) = Inr existing \<and>
      process_queries second_run (length existing) SEARCH_QUERIES initial_state = Inr s \<and>
      (\<forall>e \<in> set [with_id glow 2, with_id jazz 2].
          (e \<in> set existing \<and> event_relevant e) \<or> e \<in> set (new_events s)))"
  using second_run_result catalog_entries_relevant_or_new [OF second_run_result]
  by (rule conjI)

text \<open>
  C4. A failure that affects a single candidate, such as a malformed verification result,
  never aborts the run; only a failure of the final save may propagate. The loops over the
  queries and candidates never raise (lemma \<open>collection_never_raises\<close>), but an accepted
  reply whose event has a title and no venue is returned by \<^verbatim>\<open>verify_event_with_gemini\<close>
  and \<^verbatim>\<open>deduplicate_events\<close> then raises \<^verbatim>\<open>KeyError\<close> on \<^verbatim>\<open>event['venue']\<close>, outside every
  \<^verbatim>\<open>try\<close>: the run aborts before the save, and the complete event verified after it is
  lost with it.
\<close>

theorem venue_missing_run_aborts:
  "save_failure venue_missing_run = None \<and>
   map_sum id new_events (process_queries venue_missing_run 0 SEARCH_QUERIES initial_state) =
     Inr [with_id no_venue 1, with_id glow 2] \<and>
   daily_event_update venue_missing_run = Inl KeyError"
  by code_simp

text \<open>
  C5. The Link Validator falls back to a full fetch on failure or on an ambiguous
  response, and returns true exactly when a response with a status of the HTTP-success
  class is obtained. The program compares the status with 200 and falls back only when
  the header-only request raises: a 204 answer gives false, and a 405 answer to the
  header-only request gives false without a second request.
\<close>

theorem verify_link_not_success_class:
  "spec_http_success 204 \<and>
   verify_link answers_204 glow_link = (False, [HEAD]) \<and>
   head_not_allowed GET glow_link = Status 200 \<and>
   verify_link head_not_allowed glow_link = (False, [HEAD])"
  by code_simp

text \<open>
  C5, as amended. The Link Validator first makes a header-only request; it makes a full
  request after it exactly when the header-only request raises; it returns true exactly
  when the first request that yields a response yields the status 200, and false when
  both requests raise.
\<close>

theorem verify_link_status_200:
  "fst (verify_link req url) =
     (req HEAD url = Status 200 \<or> (req HEAD url = Raised \<and> req GET url = Status 200)) \<and>
   snd (verify_link req url) = (if req HEAD url = Raised then [HEAD, GET] else [HEAD]) \<and>
   (req HEAD url = Raised \<and> req GET url = Raised \<longrightarrow> \<not> fst (verify_link req url))"
  by (cases "req HEAD url"; cases "req GET url") (simp_all add: verify_link_def)

theorem verify_link_status_200_witness:
  "head_times_out HEAD glow_link = Raised \<and>
   fst (verify_link head_times_out glow_link) \<and>
   snd (verify_link head_times_out glow_link) = [HEAD, GET]"
  using verify_link_status_200 [of head_times_out glow_link]
  by (simp add: head_times_out_def)

text \<open>
  C6. The merged catalog consists of the existing survivors first, in their order, then
  the new events in discovery order, with every event whose dedup key, the
  case-insensitive pair of title and venue, appeared earlier removed. The program compares
  one text per event, the lowered title and the lowered venue joined by an underscore
  (line 225). The stored event "Art_Walk" at "Gillman" and the newly verified event "Art"
  at "Walk_Gillman" have different pairs and the same text: the specification's merge
  keeps both, the run writes the stored one only.
\<close>

theorem underscore_run_drops_new_pair:
  "remove_past_events (load_existing_events (stored underscore_run)) = Inr [with_id art_walk 1] \<and>
   map_sum id new_events (process_queries underscore_run 1 SEARCH_QUERIES initial_state) =
     Inr [with_id art 2] \<and>
   spec_dedup_key (with_id art_walk 1) = Some (''art_walk'', ''gillman'') \<and>
   spec_dedup_key (with_id art 2) = Some (''art'', ''walk_gillman'') \<and>
   spec_merge [with_id art_walk 1] [with_id art 2] = [with_id art_walk 1, with_id art 2] \<and>
   daily_event_update underscore_run = Inr [with_id art_walk 1]"
  by code_simp

text \<open>
  C6, as amended. The catalog a run returns consists of the existing survivors first, in
  their order, then the new events in discovery order, with every event removed whose key
  text (lowered title, underscore, lowered venue) appeared earlier; existing survivors
  with pairwise different key texts are its front, unchanged; and an event whose
  case-insensitive pair of title and venue appeared earlier is never kept, so a new event
  with the pair of an existing one is discarded and the existing entry stays.
\<close>

theorem run_merges_existing_then_new:
  assumes "daily_event_update w = Inr catalog"
  shows "\<exists>existing s.
     remove_past_events (load_existing_events (stored w)) = Inr existing \<and>
     process_queries w (length existing) SEARCH_QUERIES initial_state = Inr s \<and>
     catalog = first_per_key joined_key (existing @ new_events s) \<and>
     (distinct (map joined_key existing) \<longrightarrow> prefix existing catalog) \<and>
     (\<forall>j < length (existing @ new_events s).
         spec_dedup_key ((existing @ new_events s) ! j)
           \<in> set (map spec_dedup_key (take j (existing @ new_events s))) \<longrightarrow>
         j \<notin> set (kept_positions joined_key (existing @ new_events s)))"
proof -
  from daily_event_update_phases [OF assms] obtain existing s where
    ph: "remove_past_events (load_existing_events (stored w)) = Inr existing"
      "process_queries w (length existing) SEARCH_QUERIES initial_state = Inr s"
      "deduplicate_events (existing @ new_events s) = Inr catalog"
    by blast
  from ph(3) have "dedup_loop (existing @ new_events s) {} [] = Inr catalog"
    by (simp add: deduplicate_events_def)
  then have keys: "list_all has_key (existing @ new_events s)"
    by (rule dedup_loop_has_keys)
  from deduplicate_events_first_per_key [OF keys] ph(3)
  have cat: "catalog = first_per_key joined_key (existing @ new_events s)"
    by simp
  have front: "distinct (map joined_key existing) \<longrightarrow> prefix existing catalog"
    using merge_prefix [OF keys] cat by simp
  have dup: "\<forall>j < length (existing @ new_events s).
         spec_dedup_key ((existing @ new_events s) ! j)
           \<in> set (map spec_dedup_key (take j (existing @ new_events s))) \<longrightarrow>
         j \<notin> set (kept_positions joined_key (existing @ new_events s))"
    using pair_seen_not_kept by blast
  from ph(1,2) cat front dup show ?thesis
    by blast
qed

theorem run_merges_existing_then_new_witness:
  "daily_event_update glow_again_run = Inr [with_id glow 1] \<and>
   remove_past_events (load_existing_events (stored glow_again_run)) = Inr [with_id glow 1] \<and>
   map_sum id new_events (process_queries glow_again_run 1 SEARCH_QUERIES initial_state) =
     Inr [with_id glow 2] \<and>
   spec_dedup_key (with_id glow 2) = spec_dedup_key (with_id glow 1) \<and>
   first_per_key joined_key ([with_id glow 1] @ [with_id glow 2]) = [with_id glow 1] \<and>
   (\<exists>existing s.
      remove_past_events (load_existing_events (stored glow_again_run)) = Inr existing \<and>
      process_queries glow_again_run (length existing) SEARCH_QUERIES initial_state = Inr s \<and>
      [with_id glow 1] = first_per_key joined_key (existing @ new_events s) \<and>
      (distinct (map joined_key existing) \<longrightarrow> prefix existing [with_id glow 1]) \<and>
      (\<forall>j < length (existing @ new_events s).
          spec_dedup_key ((existing @ new_events s) ! j)
            \<in> set (map spec_dedup_key (take j (existing @ new_events s))) \<longrightarrow>
          j \<notin> set (kept_positions joined_key (existing @ new_events s))))"
proof -
  have a: "remove_past_events (load_existing_events (stored glow_again_run)) = Inr [with_id glow 1]"
    by code_simp
  have b: "map_sum id new_events (process_queries glow_again_run 1 SEARCH_QUERIES initial_state) =
     Inr [with_id glow 2]"
    by code_simp
  have c: "spec_dedup_key (with_id glow 2) = spec_dedup_key (with_id glow 1)"
    by code_simp
  have d: "first_per_key joined_key ([with_id glow 1] @ [with_id glow 2]) = [with_id glow 1]"
    by code_simp
  note e = run_merges_existing_then_new [OF glow_again_result]
  show ?thesis
    by (rule conjI, rule glow_again_result, rule conjI, rule a, rule conjI, rule b,
        rule conjI, rule c, rule conjI, rule d, rule e)
qed

text \<open>
  C7. The staleness filter is a predicate on the \<open>date\<close> field alone: on a catalog whose
  entries have a date text it returns the entries that satisfy \<open>event_relevant\<close>, which
  two entries with the same \<open>date\<close> field satisfy alike; an entry with the date "Daily"
  is retained, whatever its other fields, and an entry with the date "12 Nov" is removed.
\<close>

theorem staleness_filter_on_date_alone:
  assumes "list_all has_date_text events"
  shows "remove_past_events events = Inr (filter event_relevant events) \<and>
         (\<forall>e \<in> set events. \<forall>e'. subscript e ''date'' = subscript e' ''date'' \<longrightarrow>
             event_relevant e = event_relevant e') \<and>
         (\<forall>e \<in> set events. subscript e ''date'' = Inr (JStr ''Daily'') \<longrightarrow>
             e \<in> set (filter event_relevant events)) \<and>
         (\<forall>e \<in> set events. subscript e ''date'' = Inr (JStr ''12 Nov'') \<longrightarrow>
             e \<notin> set (filter event_relevant events))"
  using assms
  by (auto simp: remove_past_events_filter event_relevant_def Daily_relevant Nov12_not_relevant)

theorem staleness_filter_on_date_alone_witness:
  "list_all has_date_text sample_catalog \<and>
   remove_past_events sample_catalog = Inr [with_id glow 1, date_only]"
proof -
  have dates: "list_all has_date_text sample_catalog"
    by code_simp
  have "filter event_relevant sample_catalog = [with_id glow 1, date_only]"
    by code_simp
  with staleness_filter_on_date_alone [OF dates, THEN conjunct1] dates show ?thesis
    by simp
qed

text \<open>
  C8. Deduplication is idempotent: applying \<^verbatim>\<open>deduplicate_events\<close> to its own result
  gives that result again (and when the first application raises, there is no second).
\<close>

theorem deduplicate_events_idempotent:
  "py_bind (deduplicate_events events) deduplicate_events = deduplicate_events events"
proof (cases "deduplicate_events events")
  case (Inl e)
  then show ?thesis by simp
next
  case (Inr us)
  then have "dedup_loop events {} [] = Inr us" by (simp add: deduplicate_events_def)
  from dedup_loop_result [OF this] have "list_all has_key us" "distinct (map event_key us)"
    by auto
  then have "dedup_loop us {} [] = Inr ([] @ us)"
    by (intro dedup_loop_fixed) auto
  with Inr show ?thesis by (simp add: deduplicate_events_def)
qed

theorem deduplicate_events_idempotent_witness:
  "py_bind (deduplicate_events [with_id glow 1, with_id jazz 2, with_id glow 3])
     deduplicate_events = Inr [with_id glow 1, with_id jazz 2]"
proof -
  have "py_bind (deduplicate_events [with_id glow 1, with_id jazz 2, with_id glow 3])
      deduplicate_events = deduplicate_events [with_id glow 1, with_id jazz 2, with_id glow 3]"
    by (rule deduplicate_events_idempotent)
  also have "\<dots> = Inr [with_id glow 1, with_id jazz 2]"
    by code_simp
  finally show ?thesis .
qed

text \<open>
  C9. For every query, Candidate Discovery returns at most 5 candidates, in page order,
  each made from a block of the page that has both a title and a link; a block missing
  either is dropped without an error (and a failed search gives no candidate). Every
  candidate that a run passes to the verifier is one of the candidates so returned.
\<close>

theorem search_google_events_candidates:
  "length (search_google_events (fetch_page w) q) \<le> 5 \<and>
   (fetch_page w q = SearchFailed \<longrightarrow> search_google_events (fetch_page w) q = []) \<and>
   (\<forall>hits. fetch_page w q = Page hits \<longrightarrow>
      (\<exists>hs. subseq hs hits \<and> list_all has_title_and_link hs \<and>
            map Some (search_google_events (fetch_page w) q) = map (candidate_of q) hs)) \<and>
   (\<forall>s. process_queries w n SEARCH_QUERIES initial_state = Inr s \<longrightarrow>
      (\<forall>c \<in> set (sent s).
          \<exists>q' \<in> set SEARCH_QUERIES. c \<in> set (search_google_events (fetch_page w) q')))"
  using search_results_from_hits [of "fetch_page w" q] sent_from_search [of w n]
  by simp

theorem search_google_events_candidates_witness:
  "fetch_page sample_world ''Singapore free events'' = Page sample_hits \<and>
   length (search_google_events (fetch_page sample_world) ''Singapore free events'') \<le> 5 \<and>
   (\<exists>hs. subseq hs sample_hits \<and> list_all has_title_and_link hs \<and>
      map Some (search_google_events (fetch_page sample_world) ''Singapore free events'') =
        map (candidate_of ''Singapore free events'') hs) \<and>
   map link (search_google_events (fetch_page sample_world) ''Singapore free events'') =
     [glow_link, jazz_link] \<and>
   map_sum id (map link \<circ> sent)
     (process_queries sample_world 0 SEARCH_QUERIES initial_state) = Inr [glow_link, jazz_link]"
proof -
  have page: "fetch_page sample_world ''Singapore free events'' = Page sample_hits"
    by (simp add: sample_world_def sample_page_def)
  have links: "map link (search_google_events (fetch_page sample_world) ''Singapore free events'') =
      [glow_link, jazz_link]"
    by code_simp
  have passed: "map_sum id (map link \<circ> sent)
     (process_queries sample_world 0 SEARCH_QUERIES initial_state) = Inr [glow_link, jazz_link]"
    by code_simp
  from search_google_events_candidates [of sample_world "''Singapore free events''" 0]
    page links passed
  show ?thesis by blast
qed

text \<open>
  C10. An event whose date text contains neither a recurrence marker nor a forward month
  abbreviation, an empty or unrecognized text included, is removed by the staleness filter.
\<close>

theorem unrecognized_date_dropped:
  assumes "list_all has_date_text events"
    and "subscript e ''date'' = Inr (JStr d)"
    and "\<not> list_ex (\<lambda>marker. contains marker (lower d)) recurrence_markers"
    and "\<not> list_ex (\<lambda>month. contains month (lower d)) forward_months"
  shows "\<exists>kept. remove_past_events events = Inr kept \<and> e \<notin> set kept"
  using assms
  by (auto simp: remove_past_events_filter event_relevant_def spec_still_relevant_def)

theorem unrecognized_date_dropped_witness:
  "list_all has_date_text unclear_catalog \<and>
   subscript undated ''date'' = Inr (JStr []) \<and>
   \<not> list_ex (\<lambda>marker. contains marker (lower [])) recurrence_markers \<and>
   \<not> list_ex (\<lambda>month. contains month (lower [])) forward_months \<and>
   (\<exists>kept. remove_past_events unclear_catalog = Inr kept \<and> undated \<notin> set kept)"
proof -
  have a: "list_all has_date_text unclear_catalog"
    by code_simp
  have b: "subscript undated ''date'' = Inr (JStr [])"
    by code_simp
  have c: "\<not> list_ex (\<lambda>marker. contains marker (lower [])) recurrence_markers"
    by code_simp
  have d: "\<not> list_ex (\<lambda>month. contains month (lower [])) forward_months"
    by code_simp
  from unrecognized_date_dropped [OF a b c d] a b c d show ?thesis
    by blast
qed

end
